theory Spec2Isabelle
  imports Main "HOL-Library.Multiset"
begin

section \<open>The array-backed priority queue of PriorityQueue.h\<close>

text \<open>
  The class \<^verbatim>\<open>PriorityQueue<T, Container, Compare>\<close> holds a container \<^verbatim>\<open>c\<close>
  (a \<^verbatim>\<open>std::vector<T>\<close>) and a stateless comparison object \<^verbatim>\<open>comp\<close>. The container
  is a list, the comparison is the parameter \<open>cmp\<close> of every operation that uses it, and
  a member function that mutates \<^verbatim>\<open>c\<close> returns the new list.

  Indices are \<^verbatim>\<open>size_t\<close>. They are natural numbers here: a vector holds at most
  \<^verbatim>\<open>max_size()\<close> elements, which is below \<open>2 ^ 63\<close>, so \<^verbatim>\<open>2 * index + 1\<close> and
  \<^verbatim>\<open>2 * (index + 1)\<close> cannot wrap for an index inside the container. The one
  computation that can wrap is \<^verbatim>\<open>x - 1\<close> at \<open>x = 0\<close> (in \<^verbatim>\<open>parent\<close> and in
  \<^verbatim>\<open>c.size() - 1\<close>), and \<open>dec\<close> writes that wrap out.

  \<^verbatim>\<open>operator[]\<close> outside the container and \<^verbatim>\<open>pop_back\<close> on an empty vector are
  undefined behaviour in C++. Every element access of the source is a checked access of
  the model, and an access outside the container is the result \<open>Inl OutOfBounds\<close>.
\<close>

datatype error =
  EmptyContainer  \<comment> \<open>the signal the specification names; no path of the source raises it\<close>
| OutOfBounds     \<comment> \<open>an element access outside the container: undefined behaviour\<close>

type_synonym 'a compare = "'a \<Rightarrow> 'a \<Rightarrow> bool"

subsection \<open>The container primitives\<close>

definition dec :: "nat \<Rightarrow> nat" where
  \<comment> \<open>\<^verbatim>\<open>x - 1\<close> on \<^verbatim>\<open>size_t\<close>: it wraps at zero\<close>
  "dec x = (if x = 0 then 2 ^ 64 - 1 else x - 1)"

definition at :: "'a list \<Rightarrow> nat \<Rightarrow> error + 'a" where
  \<comment> \<open>\<^verbatim>\<open>c[i]\<close>\<close>
  "at c i = (if i < length c then Inr (c ! i) else Inl OutOfBounds)"

definition pop_back :: "'a list \<Rightarrow> error + 'a list" where
  \<comment> \<open>\<^verbatim>\<open>c.pop_back()\<close>\<close>
  "pop_back c = (if c = [] then Inl OutOfBounds else Inr (butlast c))"

subsection \<open>The index arithmetic\<close>

definition parent :: "nat \<Rightarrow> nat" where
  "parent index = dec index div 2"

definition left_child :: "nat \<Rightarrow> nat" where
  "left_child index = 2 * index + 1"

definition right_child :: "nat \<Rightarrow> nat" where
  "right_child index = 2 * (index + 1)"

definition size_pq :: "'a list \<Rightarrow> nat" where
  \<comment> \<open>\<^verbatim>\<open>size()\<close>\<close>
  "size_pq c = length c"

definition empty_pq :: "'a list \<Rightarrow> bool" where
  \<comment> \<open>\<^verbatim>\<open>empty()\<close>\<close>
  "empty_pq c = (length c = 0)"

definition is_internal :: "'a list \<Rightarrow> nat \<Rightarrow> bool" where
  "is_internal c index = (left_child index < length c)"

definition is_leaf :: "'a list \<Rightarrow> nat \<Rightarrow> bool" where
  "is_leaf c index = (left_child index \<ge> length c)"

subsection \<open>The sift operations\<close>

text \<open>
  \<^verbatim>\<open>upheap\<close> reads \<^verbatim>\<open>c[parent(index)]\<close> and \<^verbatim>\<open>c[index]\<close>, and exchanges the two through
  a temporary when \<^verbatim>\<open>comp\<close> holds of them.
\<close>

function upheap :: "'a compare \<Rightarrow> 'a list \<Rightarrow> nat \<Rightarrow> error + 'a list" where
  "upheap cmp c index =
     (if index = 0 then Inr c
      else
        (case at c (parent index) of
           Inl e \<Rightarrow> Inl e
         | Inr p \<Rightarrow>
             (case at c index of
                Inl e \<Rightarrow> Inl e
              | Inr x \<Rightarrow>
                  if cmp p x
                  then upheap cmp ((c[parent index := x])[index := p]) (parent index)
                  else Inr c)))"
  by pat_completeness auto
termination
  by (relation "measure (\<lambda>(cmp, c, index). index)")
     (auto simp: parent_def dec_def)

definition swap :: "'a list \<Rightarrow> nat \<Rightarrow> nat \<Rightarrow> error + 'a list" where
  \<comment> \<open>\<^verbatim>\<open>temp = c[a]; c[a] = c[b]; c[b] = temp\<close>\<close>
  "swap c a b =
     (case at c a of
        Inl e \<Rightarrow> Inl e
      | Inr temp \<Rightarrow>
          (case at c b of
             Inl e \<Rightarrow> Inl e
           | Inr y \<Rightarrow> Inr ((c[a := y])[b := temp])))"

lemma swap_length: "swap c a b = Inr c' \<Longrightarrow> length c' = length c"
  by (auto simp: swap_def at_def split: if_splits)

text \<open>
  \<^verbatim>\<open>downheap\<close>, branch by branch as the source has it: a leaf; a node with a left child
  only; a node with both children, where the guard stops the descent when \<^verbatim>\<open>comp\<close> holds
  of each child and the node, and otherwise the left child is taken when
  \<^verbatim>\<open>comp(c[rchild], c[lchild])\<close> and the right child when not.
\<close>

function downheap :: "'a compare \<Rightarrow> 'a list \<Rightarrow> nat \<Rightarrow> error + 'a list" where
  "downheap cmp c index =
     (if is_leaf c index then Inr c
      else if right_child index \<ge> size_pq c then
        (case at c index of
           Inl e \<Rightarrow> Inl e
         | Inr x \<Rightarrow>
             (case at c (left_child index) of
                Inl e \<Rightarrow> Inl e
              | Inr l \<Rightarrow>
                  if cmp x l
                  then (case swap c index (left_child index) of
                          Inl e \<Rightarrow> Inl e
                        | Inr c' \<Rightarrow> downheap cmp c' (left_child index))
                  else Inr c))
      else
        (case at c (right_child index) of
           Inl e \<Rightarrow> Inl e
         | Inr r \<Rightarrow>
             (case at c index of
                Inl e \<Rightarrow> Inl e
              | Inr x \<Rightarrow>
                  (case at c (left_child index) of
                     Inl e \<Rightarrow> Inl e
                   | Inr l \<Rightarrow>
                       if cmp r x \<and> cmp l x then Inr c
                       else if cmp r l
                       then (case swap c index (left_child index) of
                               Inl e \<Rightarrow> Inl e
                             | Inr c' \<Rightarrow> downheap cmp c' (left_child index))
                       else (case swap c index (right_child index) of
                               Inl e \<Rightarrow> Inl e
                             | Inr c' \<Rightarrow> downheap cmp c' (right_child index))))))"
  by pat_completeness auto
termination
  by (relation "measure (\<lambda>(cmp, c, index). length c - index)")
     (auto simp: is_leaf_def size_pq_def left_child_def right_child_def dest!: swap_length)

text \<open>
  The positions at which \<^verbatim>\<open>downheap\<close> is entered, in order: the same branches, with the
  index of each call recorded.
\<close>

function downheap_calls :: "'a compare \<Rightarrow> 'a list \<Rightarrow> nat \<Rightarrow> nat list" where
  "downheap_calls cmp c index =
     (if is_leaf c index then [index]
      else if right_child index \<ge> size_pq c then
        (case at c index of
           Inl e \<Rightarrow> [index]
         | Inr x \<Rightarrow>
             (case at c (left_child index) of
                Inl e \<Rightarrow> [index]
              | Inr l \<Rightarrow>
                  if cmp x l
                  then (case swap c index (left_child index) of
                          Inl e \<Rightarrow> [index]
                        | Inr c' \<Rightarrow> index # downheap_calls cmp c' (left_child index))
                  else [index]))
      else
        (case at c (right_child index) of
           Inl e \<Rightarrow> [index]
         | Inr r \<Rightarrow>
             (case at c index of
                Inl e \<Rightarrow> [index]
              | Inr x \<Rightarrow>
                  (case at c (left_child index) of
                     Inl e \<Rightarrow> [index]
                   | Inr l \<Rightarrow>
                       if cmp r x \<and> cmp l x then [index]
                       else if cmp r l
                       then (case swap c index (left_child index) of
                               Inl e \<Rightarrow> [index]
                             | Inr c' \<Rightarrow> index # downheap_calls cmp c' (left_child index))
                       else (case swap c index (right_child index) of
                               Inl e \<Rightarrow> [index]
                             | Inr c' \<Rightarrow> index # downheap_calls cmp c' (right_child index))))))"
  by pat_completeness auto
termination
  by (relation "measure (\<lambda>(cmp, c, index). length c - index)")
     (auto simp: is_leaf_def size_pq_def left_child_def right_child_def dest!: swap_length)

declare upheap.simps [simp del] downheap.simps [simp del] downheap_calls.simps [simp del]

subsection \<open>The public operations\<close>

definition top_pq :: "'a list \<Rightarrow> error + 'a" where
  \<comment> \<open>\<^verbatim>\<open>top()\<close>: \<^verbatim>\<open>return c[0]\<close>\<close>
  "top_pq c = at c 0"

definition push :: "'a compare \<Rightarrow> 'a list \<Rightarrow> 'a \<Rightarrow> error + 'a list" where
  \<comment> \<open>\<^verbatim>\<open>push(const value_type&)\<close>: \<^verbatim>\<open>c.push_back(value); upheap(c.size() - 1)\<close>\<close>
  "push cmp c v = (let c1 = c @ [v] in upheap cmp c1 (dec (length c1)))"

definition push_move :: "'a compare \<Rightarrow> 'a list \<Rightarrow> 'a \<Rightarrow> error + 'a list" where
  \<comment> \<open>\<^verbatim>\<open>push(value_type&&)\<close>: \<^verbatim>\<open>c.push_back(std::move(value)); upheap(size() - 1)\<close>\<close>
  "push_move cmp c v = (let c1 = c @ [v] in upheap cmp c1 (dec (size_pq c1)))"

text \<open>
  \<^verbatim>\<open>pop()\<close> first prints \<^verbatim>\<open>c[0]\<close> and \<^verbatim>\<open>c[c.size() - 1]\<close>; the text printed is left
  out, the two reads are kept. Then \<^verbatim>\<open>swap(0, c.size() - 1)\<close>, \<^verbatim>\<open>c.pop_back()\<close> and
  \<^verbatim>\<open>downheap(0)\<close>, with no test in between.
\<close>

definition pop :: "'a compare \<Rightarrow> 'a list \<Rightarrow> error + 'a list" where
  "pop cmp c =
     (case at c 0 of
        Inl e \<Rightarrow> Inl e
      | Inr _ \<Rightarrow>
          (case at c (dec (length c)) of
             Inl e \<Rightarrow> Inl e
           | Inr _ \<Rightarrow>
               (case swap c 0 (dec (length c)) of
                  Inl e \<Rightarrow> Inl e
                | Inr c1 \<Rightarrow>
                    (case pop_back c1 of
                       Inl e \<Rightarrow> Inl e
                     | Inr c2 \<Rightarrow> downheap cmp c2 0))))"

definition pop_downheap_calls :: "'a compare \<Rightarrow> 'a list \<Rightarrow> nat list" where
  \<comment> \<open>the calls of \<^verbatim>\<open>downheap\<close> that one \<^verbatim>\<open>pop()\<close> makes\<close>
  "pop_downheap_calls cmp c =
     (case at c 0 of
        Inl e \<Rightarrow> []
      | Inr _ \<Rightarrow>
          (case at c (dec (length c)) of
             Inl e \<Rightarrow> []
           | Inr _ \<Rightarrow>
               (case swap c 0 (dec (length c)) of
                  Inl e \<Rightarrow> []
                | Inr c1 \<Rightarrow>
                    (case pop_back c1 of
                       Inl e \<Rightarrow> []
                     | Inr c2 \<Rightarrow> downheap_calls cmp c2 0))))"

subsection \<open>Sequences of calls\<close>

datatype 'a call = Push 'a | Pop

fun run :: "'a compare \<Rightarrow> 'a list \<Rightarrow> 'a call list \<Rightarrow> error + 'a list" where
  "run cmp c [] = Inr c"
| "run cmp c (Push v # ops) =
     (case push cmp c v of Inl e \<Rightarrow> Inl e | Inr c' \<Rightarrow> run cmp c' ops)"
| "run cmp c (Pop # ops) =
     (case pop cmp c of Inl e \<Rightarrow> Inl e | Inr c' \<Rightarrow> run cmp c' ops)"

text \<open>
  The caller's side of the precondition of \<^verbatim>\<open>pop()\<close>: with \<open>n\<close> elements stored, every
  \<open>Pop\<close> of the sequence meets a non-empty queue.
\<close>

fun pops_nonempty :: "nat \<Rightarrow> 'a call list \<Rightarrow> bool" where
  "pops_nonempty n [] = True"
| "pops_nonempty n (Push v # ops) = pops_nonempty (Suc n) ops"
| "pops_nonempty n (Pop # ops) = (0 < n \<and> pops_nonempty (n - 1) ops)"

fun pushes :: "'a call list \<Rightarrow> nat" where
  "pushes [] = 0"
| "pushes (Push v # ops) = Suc (pushes ops)"
| "pushes (Pop # ops) = pushes ops"

fun pops :: "'a call list \<Rightarrow> nat" where
  "pops [] = 0"
| "pops (Push v # ops) = pops ops"
| "pops (Pop # ops) = Suc (pops ops)"

text \<open>The two loops of main.cpp: push every value of a list; read and remove the top \<open>n\<close> times.\<close>

fun push_all :: "'a compare \<Rightarrow> 'a list \<Rightarrow> 'a list \<Rightarrow> error + 'a list" where
  "push_all cmp c [] = Inr c"
| "push_all cmp c (v # vs) =
     (case push cmp c v of Inl e \<Rightarrow> Inl e | Inr c' \<Rightarrow> push_all cmp c' vs)"

fun drain :: "'a compare \<Rightarrow> 'a list \<Rightarrow> nat \<Rightarrow> error + ('a list \<times> 'a list)" where
  "drain cmp c 0 = Inr ([], c)"
| "drain cmp c (Suc n) =
     (case top_pq c of
        Inl e \<Rightarrow> Inl e
      | Inr x \<Rightarrow>
          (case pop cmp c of
             Inl e \<Rightarrow> Inl e
           | Inr c' \<Rightarrow>
               (case drain cmp c' n of
                  Inl e \<Rightarrow> Inl e
                | Inr (out, rest) \<Rightarrow> Inr (x # out, rest))))"

subsection \<open>The heap property and the orderings it is stated for\<close>

definition heap_property :: "'a compare \<Rightarrow> 'a list \<Rightarrow> bool" where
  "heap_property cmp c = list_all (\<lambda>i. \<not> cmp (c ! parent i) (c ! i)) [1..<length c]"

definition strict_weak_ordering :: "'a compare \<Rightarrow> bool" where
  "strict_weak_ordering cmp \<longleftrightarrow>
     (\<forall>a. \<not> cmp a a) \<and>
     (\<forall>a b d. cmp a b \<and> cmp b d \<longrightarrow> cmp a d) \<and>
     (\<forall>a b d. cmp a b \<longrightarrow> cmp a d \<or> cmp d b)"

section \<open>Properties\<close>

subsection \<open>Index arithmetic and the checked primitives\<close>

lemma parent_pos: "0 < i \<Longrightarrow> parent i = (i - 1) div 2"
  by (simp add: parent_def dec_def)

lemma parent_less: "0 < i \<Longrightarrow> parent i < i"
  by (simp add: parent_pos)

lemma parent_child:
  "0 < j \<Longrightarrow> parent j = i \<longleftrightarrow> j = left_child i \<or> j = right_child i"
  by (simp add: parent_pos left_child_def right_child_def) arith

lemma at_in: "i < length c \<Longrightarrow> at c i = Inr (c ! i)"
  by (simp add: at_def)

lemma at_out: "length c \<le> i \<Longrightarrow> at c i = Inl OutOfBounds"
  by (simp add: at_def)

lemma swap_in:
  "a < length c \<Longrightarrow> b < length c \<Longrightarrow> swap c a b = Inr (c[a := c ! b, b := c ! a])"
  by (simp add: swap_def at_in)

lemma upheap_zero: "upheap cmp c 0 = Inr c"
  by (simp add: upheap.simps)

lemma upheap_step:
  "0 < index \<Longrightarrow> index < length c \<Longrightarrow>
   upheap cmp c index =
     (if cmp (c ! parent index) (c ! index)
      then upheap cmp (c[parent index := c ! index, index := c ! parent index]) (parent index)
      else Inr c)"
  using parent_less [of index] by (subst upheap.simps) (simp add: at_in)

lemma downheap_leaf: "length c \<le> left_child index \<Longrightarrow> downheap cmp c index = Inr c"
  by (subst downheap.simps) (simp add: is_leaf_def)

lemma downheap_one:
  "left_child index < length c \<Longrightarrow> length c \<le> right_child index \<Longrightarrow>
   downheap cmp c index =
     (if cmp (c ! index) (c ! left_child index)
      then downheap cmp (c[index := c ! left_child index, left_child index := c ! index])
             (left_child index)
      else Inr c)"
  by (subst downheap.simps)
     (simp add: is_leaf_def size_pq_def at_in swap_in left_child_def)

lemma downheap_two:
  "right_child index < length c \<Longrightarrow>
   downheap cmp c index =
     (if cmp (c ! right_child index) (c ! index) \<and> cmp (c ! left_child index) (c ! index)
      then Inr c
      else if cmp (c ! right_child index) (c ! left_child index)
      then downheap cmp (c[index := c ! left_child index, left_child index := c ! index])
             (left_child index)
      else downheap cmp (c[index := c ! right_child index, right_child index := c ! index])
             (right_child index))"
  by (subst downheap.simps)
     (simp add: is_leaf_def size_pq_def at_in swap_in left_child_def right_child_def)

lemma upheap_total:
  "index < length c \<Longrightarrow>
   \<exists>c'. upheap cmp c index = Inr c' \<and> length c' = length c \<and> mset c' = mset c"
proof (induction index arbitrary: c rule: less_induct)
  case (less index)
  show ?case
  proof (cases "index = 0")
    case True
    then show ?thesis by (simp add: upheap_zero)
  next
    case False
    then have pos: "0 < index" by simp
    have p: "parent index < index" using pos by (rule parent_less)
    show ?thesis
    proof (cases "cmp (c ! parent index) (c ! index)")
      case True
      let ?c1 = "c[parent index := c ! index, index := c ! parent index]"
      have "parent index < length ?c1" using p less.prems by simp
      from less.IH [OF p this] obtain c' where
        "upheap cmp ?c1 (parent index) = Inr c'" "length c' = length ?c1" "mset c' = mset ?c1"
        by blast
      moreover have "mset ?c1 = mset c"
        using p less.prems by (simp add: mset_swap)
      ultimately show ?thesis
        using True pos less.prems by (simp add: upheap_step)
    next
      case False
      then show ?thesis using pos less.prems by (simp add: upheap_step)
    qed
  qed
qed

lemma downheap_total:
  "\<exists>c'. downheap cmp c index = Inr c' \<and> length c' = length c \<and> mset c' = mset c"
proof (induction "length c - index" arbitrary: c index rule: less_induct)
  case less
  have lt: "index < left_child index" "left_child index < right_child index"
    by (simp_all add: left_child_def right_child_def)
  consider (leaf) "length c \<le> left_child index"
    | (one) "left_child index < length c" "length c \<le> right_child index"
    | (two) "right_child index < length c"
    by linarith
  then show ?case
  proof cases
    case leaf
    then show ?thesis by (simp add: downheap_leaf)
  next
    case one
    let ?l = "left_child index"
    let ?c1 = "c[index := c ! ?l, ?l := c ! index]"
    have m: "length ?c1 - ?l < length c - index" using one lt by simp
    have ms: "mset ?c1 = mset c" using one lt by (simp add: mset_swap)
    from less [OF m] ms show ?thesis
      using one by (auto simp: downheap_one)
  next
    case two
    let ?l = "left_child index"
    let ?r = "right_child index"
    let ?c1 = "c[index := c ! ?l, ?l := c ! index]"
    let ?c2 = "c[index := c ! ?r, ?r := c ! index]"
    have m1: "length ?c1 - ?l < length c - index" using two lt by simp
    have m2: "length ?c2 - ?r < length c - index" using two lt by simp
    have ms1: "mset ?c1 = mset c" using two lt by (simp add: mset_swap)
    have ms2: "mset ?c2 = mset c" using two lt by (simp add: mset_swap)
    from less [OF m1] less [OF m2] ms1 ms2 show ?thesis
      using two by (auto simp: downheap_two)
  qed
qed

subsection \<open>Sift-up restores the heap property\<close>

lemma swo_irrefl: "strict_weak_ordering cmp \<Longrightarrow> \<not> cmp a a"
  by (simp add: strict_weak_ordering_def)

lemma swo_trans: "strict_weak_ordering cmp \<Longrightarrow> cmp a b \<Longrightarrow> cmp b d \<Longrightarrow> cmp a d"
  unfolding strict_weak_ordering_def by blast

lemma swo_asym: "strict_weak_ordering cmp \<Longrightarrow> cmp a b \<Longrightarrow> \<not> cmp b a"
  using swo_irrefl swo_trans by metis

lemma swo_negtrans:
  "strict_weak_ordering cmp \<Longrightarrow> \<not> cmp a b \<Longrightarrow> \<not> cmp b d \<Longrightarrow> \<not> cmp a d"
  unfolding strict_weak_ordering_def by blast

lemma heap_property_iff:
  "heap_property cmp c \<longleftrightarrow> (\<forall>i. 0 < i \<and> i < length c \<longrightarrow> \<not> cmp (c ! parent i) (c ! i))"
  by (auto simp: heap_property_def list_all_iff)

lemma upheap_heap:
  assumes swo: "strict_weak_ordering cmp"
  shows "index < length c \<Longrightarrow>
    (\<forall>j. 0 < j \<and> j < length c \<and> j \<noteq> index \<longrightarrow> \<not> cmp (c ! parent j) (c ! j)) \<Longrightarrow>
    (\<forall>j. 0 < index \<and> 0 < j \<and> j < length c \<and> parent j = index \<longrightarrow>
           \<not> cmp (c ! parent index) (c ! j)) \<Longrightarrow>
    \<exists>c'. upheap cmp c index = Inr c' \<and> heap_property cmp c'"
proof (induction index arbitrary: c rule: less_induct)
  case (less i)
  note heap = less.prems(2) and grand = less.prems(3)
  show ?case
  proof (cases "i = 0")
    case True
    with heap show ?thesis by (auto simp: upheap_zero heap_property_iff)
  next
    case False
    then have pos: "0 < i" by simp
    let ?p = "parent i"
    have p: "?p < i" using pos by (rule parent_less)
    show ?thesis
    proof (cases "cmp (c ! ?p) (c ! i)")
      case False
      have "heap_property cmp c"
        unfolding heap_property_iff using heap False by metis
      then show ?thesis using False pos less.prems(1) by (simp add: upheap_step)
    next
      case True
      let ?c1 = "c[?p := c ! i, i := c ! ?p]"
      have len: "length ?c1 = length c" by simp
      have nth: "?c1 ! k = (if k = i then c ! ?p else if k = ?p then c ! i else c ! k)"
        if "k < length c" for k
        using that p by (simp add: nth_list_update)
      have pl: "parent j < length c" if "0 < j" "j < length c" for j
        using parent_less [OF that(1)] that(2) by simp
      have A: "\<not> cmp (?c1 ! parent j) (?c1 ! j)" if j: "0 < j" "j < length c" "j \<noteq> ?p" for j
      proof -
        have pj: "parent j < j" using j(1) by (rule parent_less)
        show ?thesis
        proof (cases "j = i")
          case True
          then show ?thesis
            using nth [of i] nth [of ?p] p less.prems(1) swo_asym [OF swo \<open>cmp (c ! ?p) (c ! i)\<close>]
            by simp
        next
          case ji: False
          have hj: "\<not> cmp (c ! parent j) (c ! j)" using heap j ji by blast
          consider (a) "parent j = ?p" | (b) "parent j = i" | (c) "parent j \<noteq> ?p" "parent j \<noteq> i"
            by blast
          then show ?thesis
          proof cases
            case a
            have "\<not> cmp (c ! i) (c ! j)"
              using swo_trans [OF swo True, of "c ! j"] hj a by auto
            then show ?thesis using nth [of j] nth [of "parent j"] pl [OF j(1,2)] j ji a p by simp
          next
            case b
            have "\<not> cmp (c ! ?p) (c ! j)" using grand pos j b by blast
            then show ?thesis using nth [of j] nth [of "parent j"] pl [OF j(1,2)] j ji b p by simp
          next
            case c
            then show ?thesis using nth [of j] nth [of "parent j"] pl [OF j(1,2)] j ji hj by simp
          qed
        qed
      qed
      have B: "\<not> cmp (?c1 ! parent ?p) (?c1 ! j)"
        if j: "0 < ?p" "0 < j" "j < length c" "parent j = ?p" for j
      proof -
        have pp: "parent ?p < ?p" using j(1) by (rule parent_less)
        have hp: "\<not> cmp (c ! parent ?p) (c ! ?p)" using heap j(1) p less.prems(1) by simp
        have top: "?c1 ! parent ?p = c ! parent ?p"
          using nth [of "parent ?p"] pp p less.prems(1) by simp
        show ?thesis
        proof (cases "j = i")
          case True
          then show ?thesis using top nth [of i] hp less.prems(1) by simp
        next
          case False
          have jp: "j \<noteq> ?p" using parent_less [OF j(2)] j(4) by simp
          have "\<not> cmp (c ! ?p) (c ! j)" using heap j False by metis
          then have "\<not> cmp (c ! parent ?p) (c ! j)" using swo_negtrans [OF swo hp] by blast
          then show ?thesis using top nth [of j] j False jp by simp
        qed
      qed
      have "\<exists>c'. upheap cmp ?c1 ?p = Inr c' \<and> heap_property cmp c'"
      proof (rule less.IH [OF p])
        show "?p < length ?c1" using p less.prems(1) by simp
        show "\<forall>j. 0 < j \<and> j < length ?c1 \<and> j \<noteq> ?p \<longrightarrow> \<not> cmp (?c1 ! parent j) (?c1 ! j)"
          using A len by presburger
        show "\<forall>j. 0 < ?p \<and> 0 < j \<and> j < length ?c1 \<and> parent j = ?p \<longrightarrow>
                 \<not> cmp (?c1 ! parent ?p) (?c1 ! j)"
          using B len by presburger
      qed
      then show ?thesis using True pos less.prems(1) by (simp add: upheap_step)
    qed
  qed
qed

subsection \<open>Sift-down restores the heap property\<close>

text \<open>One exchange with a child chosen by the caller keeps the invariant of the descent.\<close>

lemma exchange_down:
  assumes swo: "strict_weak_ordering cmp"
    and k: "k < length c" "parent k = i" "0 < k"
    and heap: "\<forall>j. 0 < j \<and> j < length c \<and> parent j \<noteq> i \<longrightarrow> \<not> cmp (c ! parent j) (c ! j)"
    and grand: "\<forall>j. 0 < i \<and> 0 < j \<and> j < length c \<and> parent j = i \<longrightarrow>
                  \<not> cmp (c ! parent i) (c ! j)"
    and up: "\<not> cmp (c ! k) (c ! i)"
    and sib: "\<forall>j. 0 < j \<and> j < length c \<and> parent j = i \<longrightarrow> \<not> cmp (c ! k) (c ! j)"
  defines "c1 \<equiv> c[i := c ! k, k := c ! i]"
  shows "(\<forall>j. 0 < j \<and> j < length c1 \<and> parent j \<noteq> k \<longrightarrow> \<not> cmp (c1 ! parent j) (c1 ! j)) \<and>
         (\<forall>j. 0 < k \<and> 0 < j \<and> j < length c1 \<and> parent j = k \<longrightarrow> \<not> cmp (c1 ! parent k) (c1 ! j))"
proof -
  have ik: "i < k" using parent_less [OF k(3)] k(2) by simp
  have len: "length c1 = length c" by (simp add: c1_def)
  have nth: "c1 ! m = (if m = k then c ! i else if m = i then c ! k else c ! m)"
    if "m < length c" for m
    using that ik k(1) by (simp add: c1_def nth_list_update)
  have A: "\<not> cmp (c1 ! parent j) (c1 ! j)" if j: "0 < j" "j < length c" "parent j \<noteq> k" for j
  proof -
    have pj: "parent j < j" using j(1) by (rule parent_less)
    then have pjl: "parent j < length c" using j(2) by simp
    consider (self) "j = k" | (node) "j = i" | (sibling) "j \<noteq> k" "j \<noteq> i" "parent j = i"
      | (other) "j \<noteq> k" "j \<noteq> i" "parent j \<noteq> i"
      by blast
    then show ?thesis
    proof cases
      case self
      then show ?thesis using nth [of k] nth [of i] k ik up by simp
    next
      case node
      then have "0 < i" using j(1) by simp
      then have "\<not> cmp (c ! parent i) (c ! k)" using grand k by blast
      moreover have "parent i \<noteq> k" "parent i \<noteq> i" using pj node ik by simp_all
      ultimately show ?thesis using nth [of i] nth [of "parent i"] node pjl j(2) ik by simp
    next
      case sibling
      have "\<not> cmp (c ! k) (c ! j)" using sib j sibling by blast
      then show ?thesis using nth [of j] nth [of i] sibling j(2) ik k(1) by simp
    next
      case other
      have "\<not> cmp (c ! parent j) (c ! j)" using heap j other by blast
      then show ?thesis using nth [of j] nth [of "parent j"] other j pjl by simp
    qed
  qed
  have B: "\<not> cmp (c1 ! parent k) (c1 ! j)" if j: "0 < j" "j < length c" "parent j = k" for j
  proof -
    have kj: "k < j" using parent_less [OF j(1)] j(3) by simp
    have "parent j \<noteq> i" using j(3) ik by simp
    then have "\<not> cmp (c ! k) (c ! j)" using heap j by metis
    then show ?thesis using nth [of j] nth [of i] k(1,2) kj ik j(2) by simp
  qed
  show ?thesis using A B len by simp
qed

lemma downheap_heap:
  assumes swo: "strict_weak_ordering cmp"
  shows "(\<forall>j. 0 < j \<and> j < length c \<and> parent j \<noteq> index \<longrightarrow> \<not> cmp (c ! parent j) (c ! j)) \<Longrightarrow>
    (\<forall>j. 0 < index \<and> 0 < j \<and> j < length c \<and> parent j = index \<longrightarrow>
           \<not> cmp (c ! parent index) (c ! j)) \<Longrightarrow>
    \<exists>c'. downheap cmp c index = Inr c' \<and> heap_property cmp c'"
proof (induction "length c - index" arbitrary: c index rule: less_induct)
  case less
  note heap = less.prems(1) and grand = less.prems(2)
  let ?l = "left_child index"
  let ?r = "right_child index"
  have lt: "index < ?l" "?l < ?r" "0 < ?l" "0 < ?r"
    by (simp_all add: left_child_def right_child_def)
  have pl: "parent ?l = index" and pr: "parent ?r = index"
    using parent_child [OF lt(3), of index] parent_child [OF lt(4), of index] by simp_all
  have kids: "j = ?l \<or> j = ?r" if "0 < j" "parent j = index" for j
    using parent_child [OF that(1), of index] that(2) by simp
  have stop: "heap_property cmp c"
    if "\<forall>j. 0 < j \<and> j < length c \<and> parent j = index \<longrightarrow> \<not> cmp (c ! index) (c ! j)"
    unfolding heap_property_iff using heap that by metis
  have step: "\<exists>c'. downheap cmp (c[index := c ! k, k := c ! index]) k = Inr c' \<and> heap_property cmp c'"
    if k: "k < length c" "parent k = index" "0 < k"
      and up: "\<not> cmp (c ! k) (c ! index)"
      and sib: "\<forall>j. 0 < j \<and> j < length c \<and> parent j = index \<longrightarrow> \<not> cmp (c ! k) (c ! j)"
    for k
  proof -
    let ?c1 = "c[index := c ! k, k := c ! index]"
    have ik: "index < k" using parent_less [OF k(3)] k(2) by simp
    have m: "length ?c1 - k < length c - index" using ik k(1) by simp
    from exchange_down [OF swo k heap grand up sib]
    have a: "\<forall>j. 0 < j \<and> j < length ?c1 \<and> parent j \<noteq> k \<longrightarrow> \<not> cmp (?c1 ! parent j) (?c1 ! j)"
      and b: "\<forall>j. 0 < k \<and> 0 < j \<and> j < length ?c1 \<and> parent j = k \<longrightarrow> \<not> cmp (?c1 ! parent k) (?c1 ! j)"
      by blast+
    show ?thesis by (rule less.hyps [OF m a b])
  qed
  consider (leaf) "length c \<le> ?l"
    | (one) "?l < length c" "length c \<le> ?r"
    | (two) "?r < length c"
    by linarith
  then show ?case
  proof cases
    case leaf
    note eq = downheap_leaf [OF leaf, of cmp]
    have "heap_property cmp c"
    proof (rule stop, intro allI impI)
      fix j assume "0 < j \<and> j < length c \<and> parent j = index"
      then have "j = ?l \<or> j = ?r" "j < length c" using kids by blast+
      then show "\<not> cmp (c ! index) (c ! j)" using leaf lt by auto
    qed
    then show ?thesis by (simp add: eq)
  next
    case one
    note eq = downheap_one [OF one, of cmp]
    have only: "j = ?l" if "0 < j" "j < length c" "parent j = index" for j
      using kids [OF that(1,3)] that(2) one by linarith
    show ?thesis
    proof (cases "cmp (c ! index) (c ! ?l)")
      case False
      have "heap_property cmp c"
      proof (rule stop, intro allI impI)
        fix j assume "0 < j \<and> j < length c \<and> parent j = index"
        then have "j = ?l" using only by simp
        then show "\<not> cmp (c ! index) (c ! j)" using False by simp
      qed
      then show ?thesis using False by (simp add: eq)
    next
      case True
      have "\<exists>c'. downheap cmp (c[index := c ! ?l, ?l := c ! index]) ?l = Inr c' \<and> heap_property cmp c'"
      proof (rule step [OF one(1) pl lt(3)])
        show "\<not> cmp (c ! ?l) (c ! index)" using swo_asym [OF swo True] .
        show "\<forall>j. 0 < j \<and> j < length c \<and> parent j = index \<longrightarrow> \<not> cmp (c ! ?l) (c ! j)"
        proof (intro allI impI)
          fix j assume "0 < j \<and> j < length c \<and> parent j = index"
          then have "j = ?l" using only by simp
          then show "\<not> cmp (c ! ?l) (c ! j)" using swo_irrefl [OF swo] by simp
        qed
      qed
      then show ?thesis using True by (simp add: eq)
    qed
  next
    case two
    note eq = downheap_two [OF two, of cmp]
    have l: "?l < length c" using two lt by simp
    have both: "j = ?l \<or> j = ?r" if "0 < j" "j < length c" "parent j = index" for j
      using kids [OF that(1,3)] .
    show ?thesis
    proof (cases "cmp (c ! ?r) (c ! index) \<and> cmp (c ! ?l) (c ! index)")
      case True
      have "heap_property cmp c"
      proof (rule stop, intro allI impI)
        fix j assume "0 < j \<and> j < length c \<and> parent j = index"
        then have "j = ?l \<or> j = ?r" using both by simp
        then show "\<not> cmp (c ! index) (c ! j)" using True swo_asym [OF swo] by auto
      qed
      then show ?thesis using True by (simp add: eq)
    next
      case guard: False
      show ?thesis
      proof (cases "cmp (c ! ?r) (c ! ?l)")
        case True
        have up: "\<not> cmp (c ! ?l) (c ! index)"
          using guard True swo_trans [OF swo] by blast
        have "\<exists>c'. downheap cmp (c[index := c ! ?l, ?l := c ! index]) ?l = Inr c' \<and> heap_property cmp c'"
        proof (rule step [OF l pl lt(3) up])
          show "\<forall>j. 0 < j \<and> j < length c \<and> parent j = index \<longrightarrow> \<not> cmp (c ! ?l) (c ! j)"
          proof (intro allI impI)
            fix j assume "0 < j \<and> j < length c \<and> parent j = index"
            then have "j = ?l \<or> j = ?r" using both by simp
            then show "\<not> cmp (c ! ?l) (c ! j)"
              using swo_irrefl [OF swo] swo_asym [OF swo True] by auto
          qed
        qed
        then show ?thesis using guard True by (auto simp: eq)
      next
        case False
        have up: "\<not> cmp (c ! ?r) (c ! index)"
          using guard False swo_negtrans [OF swo] by blast
        have "\<exists>c'. downheap cmp (c[index := c ! ?r, ?r := c ! index]) ?r = Inr c' \<and> heap_property cmp c'"
        proof (rule step [OF two pr lt(4) up])
          show "\<forall>j. 0 < j \<and> j < length c \<and> parent j = index \<longrightarrow> \<not> cmp (c ! ?r) (c ! j)"
          proof (intro allI impI)
            fix j assume "0 < j \<and> j < length c \<and> parent j = index"
            then have "j = ?l \<or> j = ?r" using both by simp
            then show "\<not> cmp (c ! ?r) (c ! j)"
              using swo_irrefl [OF swo] False by auto
          qed
        qed
        then show ?thesis using guard False by (auto simp: eq)
      qed
    qed
  qed
qed

subsection \<open>The public operations on a heap\<close>

lemma push_eq: "push cmp c v = upheap cmp (c @ [v]) (length c)"
  by (simp add: push_def dec_def)

lemma push_total:
  "\<exists>c'. push cmp c v = Inr c' \<and> length c' = Suc (length c) \<and> mset c' = add_mset v (mset c)"
  using upheap_total [of "length c" "c @ [v]" cmp] by (simp add: push_eq)

lemma push_heap:
  assumes swo: "strict_weak_ordering cmp" and heap: "heap_property cmp c"
  shows "\<exists>c'. push cmp c v = Inr c' \<and> heap_property cmp c'"
proof -
  let ?c1 = "c @ [v]"
  have old: "?c1 ! j = c ! j" if "j < length c" for j
    using that by (simp add: nth_append)
  have "\<exists>c'. upheap cmp ?c1 (length c) = Inr c' \<and> heap_property cmp c'"
  proof (rule upheap_heap [OF swo])
    show "length c < length ?c1" by simp
    show "\<forall>j. 0 < j \<and> j < length ?c1 \<and> j \<noteq> length c \<longrightarrow> \<not> cmp (?c1 ! parent j) (?c1 ! j)"
    proof (intro allI impI)
      fix j assume j: "0 < j \<and> j < length ?c1 \<and> j \<noteq> length c"
      then have jl: "j < length c" by simp
      moreover have "parent j < length c" using parent_less [of j] j jl by simp
      moreover have "\<not> cmp (c ! parent j) (c ! j)"
        using heap j jl unfolding heap_property_iff by blast
      ultimately show "\<not> cmp (?c1 ! parent j) (?c1 ! j)" by (simp add: old)
    qed
    show "\<forall>j. 0 < length c \<and> 0 < j \<and> j < length ?c1 \<and> parent j = length c \<longrightarrow>
            \<not> cmp (?c1 ! parent (length c)) (?c1 ! j)"
    proof (intro allI impI)
      fix j assume j: "0 < length c \<and> 0 < j \<and> j < length ?c1 \<and> parent j = length c"
      then have "length c < j" using parent_less [of j] by simp
      with j have False by simp
      then show "\<not> cmp (?c1 ! parent (length c)) (?c1 ! j)" ..
    qed
  qed
  then show ?thesis by (simp add: push_eq)
qed

lemma pop_empty: "pop cmp [] = Inl OutOfBounds"
  by (simp add: pop_def at_def)

lemma pop_eq:
  "c \<noteq> [] \<Longrightarrow>
   pop cmp c = downheap cmp (butlast (c[0 := c ! (length c - 1), length c - 1 := c ! 0])) 0"
  by (simp add: pop_def at_in dec_def swap_in pop_back_def)

lemma pop_total:
  assumes "c \<noteq> []"
  shows "\<exists>c'. pop cmp c = Inr c' \<and> Suc (length c') = length c \<and> mset c' = mset c - {#c ! 0#}"
proof -
  let ?n = "length c - 1"
  let ?c1 = "c[0 := c ! ?n, ?n := c ! 0]"
  have n: "?n < length c" "0 < length c" using assms by simp_all
  have ne: "?c1 \<noteq> []" using assms by simp
  have "last ?c1 = c ! 0" using n by (simp add: last_conv_nth)
  moreover have "mset ?c1 = mset c" using n by (simp add: mset_swap)
  moreover have "mset ?c1 = add_mset (last ?c1) (mset (butlast ?c1))"
    using ne by (metis append_butlast_last_id mset.simps(2) mset_append union_mset_add_mset_right add.right_neutral mset.simps(1))
  ultimately have ms: "mset (butlast ?c1) = mset c - {#c ! 0#}" by simp
  obtain c' where c': "downheap cmp (butlast ?c1) 0 = Inr c'" "length c' = length (butlast ?c1)"
    "mset c' = mset (butlast ?c1)"
    using downheap_total by blast
  show ?thesis using c' ms n assms by (simp add: pop_eq)
qed

lemma pop_heap:
  assumes swo: "strict_weak_ordering cmp" and heap: "heap_property cmp c" and ne: "c \<noteq> []"
  shows "\<exists>c'. pop cmp c = Inr c' \<and> heap_property cmp c'"
proof -
  let ?n = "length c - 1"
  let ?c2 = "butlast (c[0 := c ! ?n, ?n := c ! 0])"
  have len: "length ?c2 = ?n" by simp
  have nth: "?c2 ! j = c ! j" if "0 < j" "j < ?n" for j
    using that by (simp add: nth_butlast)
  have "\<exists>c'. downheap cmp ?c2 0 = Inr c' \<and> heap_property cmp c'"
  proof (rule downheap_heap [OF swo])
    show "\<forall>j. 0 < j \<and> j < length ?c2 \<and> parent j \<noteq> 0 \<longrightarrow> \<not> cmp (?c2 ! parent j) (?c2 ! j)"
    proof (intro allI impI)
      fix j assume j: "0 < j \<and> j < length ?c2 \<and> parent j \<noteq> 0"
      then have jn: "0 < j" "j < ?n" "0 < parent j" by simp_all
      have pj: "parent j < ?n" using parent_less [OF jn(1)] jn(2) by simp
      have "\<not> cmp (c ! parent j) (c ! j)"
        using heap jn unfolding heap_property_iff by simp
      then show "\<not> cmp (?c2 ! parent j) (?c2 ! j)"
        using nth [OF jn(1,2)] nth [OF jn(3) pj] by simp
    qed
    show "\<forall>j. (0::nat) < 0 \<and> 0 < j \<and> j < length ?c2 \<and> parent j = 0 \<longrightarrow>
            \<not> cmp (?c2 ! parent 0) (?c2 ! j)"
      by simp
  qed
  then show ?thesis using ne by (simp add: pop_eq)
qed

lemma heap_root_max:
  assumes swo: "strict_weak_ordering cmp" and heap: "heap_property cmp c"
  shows "i < length c \<Longrightarrow> \<not> cmp (c ! 0) (c ! i)"
proof (induction i rule: less_induct)
  case (less i)
  show ?case
  proof (cases "i = 0")
    case True
    then show ?thesis using swo_irrefl [OF swo] by simp
  next
    case False
    then have pos: "0 < i" by simp
    have p: "parent i < i" using pos by (rule parent_less)
    have "\<not> cmp (c ! 0) (c ! parent i)" using less.IH [OF p] p less.prems by simp
    moreover have "\<not> cmp (c ! parent i) (c ! i)"
      using heap pos less.prems unfolding heap_property_iff by simp
    ultimately show ?thesis by (rule swo_negtrans [OF swo])
  qed
qed

subsection \<open>Sequences of calls and sorted extraction\<close>

lemma heap_property_Nil: "heap_property cmp []"
  by (simp add: heap_property_def)

lemma run_total:
  "pops_nonempty (length c) ops \<Longrightarrow>
   \<exists>c'. run cmp c ops = Inr c' \<and> length c' + pops ops = length c + pushes ops"
proof (induction cmp c ops rule: run.induct)
  case (1 cmp c)
  then show ?case by simp
next
  case (2 cmp c v ops)
  obtain c1 where c1: "push cmp c v = Inr c1" "length c1 = Suc (length c)"
    using push_total [of cmp c v] by blast
  with 2 show ?case by auto
next
  case (3 cmp c ops)
  then have ne: "c \<noteq> []" by auto
  obtain c1 where c1: "pop cmp c = Inr c1" "Suc (length c1) = length c"
    using pop_total [OF ne] by blast
  then have "length c1 = length c - 1" by simp
  with 3 c1 show ?case by auto
qed

lemma run_heap:
  "strict_weak_ordering cmp \<Longrightarrow> heap_property cmp c \<Longrightarrow> pops_nonempty (length c) ops \<Longrightarrow>
   \<exists>c'. run cmp c ops = Inr c' \<and> heap_property cmp c'"
proof (induction cmp c ops rule: run.induct)
  case (1 cmp c)
  then show ?case by simp
next
  case (2 cmp c v ops)
  obtain c1 where c1: "push cmp c v = Inr c1" "length c1 = Suc (length c)"
    using push_total [of cmp c v] by blast
  moreover have "heap_property cmp c1"
    using push_heap [OF 2(2,3), of v] c1 by auto
  ultimately show ?case using 2 by auto
next
  case (3 cmp c ops)
  then have ne: "c \<noteq> []" by auto
  obtain c1 where c1: "pop cmp c = Inr c1" "Suc (length c1) = length c"
    using pop_total [OF ne] by blast
  then have "length c1 = length c - 1" by simp
  moreover have "heap_property cmp c1"
    using pop_heap [OF 3(2,3) ne] c1 by auto
  ultimately show ?case using 3 c1 by auto
qed

lemma push_all_heap:
  "strict_weak_ordering cmp \<Longrightarrow> heap_property cmp c \<Longrightarrow>
   \<exists>c'. push_all cmp c vs = Inr c' \<and> heap_property cmp c' \<and> mset c' = mset c + mset vs"
proof (induction vs arbitrary: c)
  case Nil
  then show ?case by simp
next
  case (Cons v vs)
  obtain c1 where c1: "push cmp c v = Inr c1" "mset c1 = add_mset v (mset c)"
    using push_total [of cmp c v] by blast
  moreover have "heap_property cmp c1"
    using push_heap [OF Cons.prems, of v] c1 by auto
  ultimately show ?case using Cons.IH [OF Cons.prems(1), of c1] by auto
qed

lemma drain_sorted:
  assumes swo: "strict_weak_ordering cmp"
  shows "heap_property cmp c \<Longrightarrow> length c = n \<Longrightarrow>
   \<exists>out. drain cmp c n = Inr (out, []) \<and> mset out = mset c \<and>
         sorted_wrt (\<lambda>a b. \<not> cmp a b) out"
proof (induction n arbitrary: c)
  case 0
  then show ?case by simp
next
  case (Suc n)
  then have ne: "c \<noteq> []" by auto
  obtain c1 where c1: "pop cmp c = Inr c1" "Suc (length c1) = length c"
    "mset c1 = mset c - {#c ! 0#}"
    using pop_total [OF ne] by blast
  have h1: "heap_property cmp c1"
    using pop_heap [OF swo Suc.prems(1) ne] c1 by auto
  have "length c1 = n" using c1 Suc.prems by simp
  from Suc.IH [OF h1 this] obtain out where out: "drain cmp c1 n = Inr (out, [])"
    "mset out = mset c1" "sorted_wrt (\<lambda>a b. \<not> cmp a b) out"
    by blast
  have root: "c ! 0 \<in># mset c" using ne by simp
  have top: "\<not> cmp (c ! 0) y" if "y \<in> set out" for y
  proof -
    have "y \<in># mset c - {#c ! 0#}" using that out(2) c1(3) by (metis set_mset_mset)
    then have "y \<in> set c" by (metis in_diffD set_mset_mset)
    then obtain i where "i < length c" "c ! i = y" by (auto simp: in_set_conv_nth)
    then show ?thesis using heap_root_max [OF swo Suc.prems(1)] by auto
  qed
  have "drain cmp c (Suc n) = Inr (c ! 0 # out, [])"
    using ne c1(1) out(1) by (simp add: top_pq_def at_in)
  moreover have "mset (c ! 0 # out) = mset c"
    using out(2) c1(3) root by simp
  moreover have "sorted_wrt (\<lambda>a b. \<not> cmp a b) (c ! 0 # out)"
    using out(3) top by simp
  ultimately show ?case by blast
qed

lemma swo_less: "strict_weak_ordering ((<) :: 'a::linorder \<Rightarrow> 'a \<Rightarrow> bool)"
  by (auto simp: strict_weak_ordering_def)

lemma swo_greater: "strict_weak_ordering (\<lambda>a b :: 'a::linorder. a > b)"
  by (auto simp: strict_weak_ordering_def)

lemma drain_less:
  fixes xs :: "'a::linorder list"
  shows "\<exists>c. push_all (<) [] xs = Inr c \<and> drain (<) c (length xs) = Inr (rev (sort xs), [])"
proof -
  obtain c where c: "push_all (<) [] xs = Inr c" "heap_property (<) c" "mset c = mset xs"
    using push_all_heap [OF swo_less heap_property_Nil, of xs] by auto
  have len: "length c = length xs" using c(3) by (metis size_mset)
  obtain out where out: "drain (<) c (length xs) = Inr (out, [])" "mset out = mset c"
    "sorted_wrt (\<lambda>a b. \<not> a < b) out"
    using drain_sorted [OF swo_less c(2) len] by blast
  have "sorted_wrt (\<lambda>a b. b \<le> a) out" using out(3) by (simp add: not_less)
  then have "sorted (rev out)" by (simp add: sorted_wrt_rev)
  moreover have "mset (rev out) = mset xs" using out(2) c(3) by simp
  ultimately have "sort xs = rev out" by (simp add: properties_for_sort)
  then have "out = rev (sort xs)" by (metis rev_rev_ident)
  with c(1) out(1) show ?thesis by simp
qed

lemma drain_greater:
  fixes xs :: "'a::linorder list"
  shows "\<exists>c. push_all (\<lambda>a b. a > b) [] xs = Inr c \<and>
    drain (\<lambda>a b. a > b) c (length xs) = Inr (sort xs, [])"
proof -
  obtain c where c: "push_all (\<lambda>a b. a > b) [] xs = Inr c" "heap_property (\<lambda>a b. a > b) c"
    "mset c = mset xs"
    using push_all_heap [OF swo_greater heap_property_Nil, of xs] by auto
  have len: "length c = length xs" using c(3) by (metis size_mset)
  obtain out where out: "drain (\<lambda>a b. a > b) c (length xs) = Inr (out, [])" "mset out = mset c"
    "sorted_wrt (\<lambda>a b. \<not> a > b) out"
    using drain_sorted [OF swo_greater c(2) len] by blast
  have "sorted out" using out(3) by (simp add: not_less)
  moreover have "mset out = mset xs" using out(2) c(3) by simp
  ultimately have "sort xs = out" by (simp add: properties_for_sort)
  with c(1) out(1) show ?thesis by simp
qed

lemma downheap_calls_leaf:
  "length c \<le> left_child index \<Longrightarrow> downheap_calls cmp c index = [index]"
  by (subst downheap_calls.simps) (simp add: is_leaf_def)

lemma downheap_calls_two:
  "right_child index < length c \<Longrightarrow>
   downheap_calls cmp c index =
     (if cmp (c ! right_child index) (c ! index) \<and> cmp (c ! left_child index) (c ! index)
      then [index]
      else if cmp (c ! right_child index) (c ! left_child index)
      then index # downheap_calls cmp
             (c[index := c ! left_child index, left_child index := c ! index]) (left_child index)
      else index # downheap_calls cmp
             (c[index := c ! right_child index, right_child index := c ! index])
             (right_child index))"
  by (subst downheap_calls.simps)
     (simp add: is_leaf_def size_pq_def at_in swap_in left_child_def right_child_def)

lemma pop_downheap_calls_eq:
  "c \<noteq> [] \<Longrightarrow>
   pop_downheap_calls cmp c =
     downheap_calls cmp (butlast (c[0 := c ! (length c - 1), length c - 1 := c ! 0])) 0"
  by (simp add: pop_downheap_calls_def at_in dec_def swap_in pop_back_def)

lemma downheap_calls_one:
  "left_child index < length c \<Longrightarrow> length c \<le> right_child index \<Longrightarrow>
   downheap_calls cmp c index =
     (if cmp (c ! index) (c ! left_child index)
      then index # downheap_calls cmp
             (c[index := c ! left_child index, left_child index := c ! index]) (left_child index)
      else [index])"
  by (subst downheap_calls.simps)
     (simp add: is_leaf_def size_pq_def at_in swap_in left_child_def)

text \<open>
  The other two tests of a node against a neighbour stop on a tie: \<^verbatim>\<open>upheap\<close> exchanges
  only when \<^verbatim>\<open>comp(c[parent(index)], c[index])\<close>, and the one-child branch of
  \<^verbatim>\<open>downheap\<close> only when \<^verbatim>\<open>comp(c[index], c[lchild])\<close>.
\<close>

lemma upheap_tie_stops:
  "0 < index \<Longrightarrow> index < length c \<Longrightarrow> \<not> cmp (c ! parent index) (c ! index) \<Longrightarrow>
   upheap cmp c index = Inr c"
  by (simp add: upheap_step)

lemma downheap_one_child_tie_stops:
  "left_child index < length c \<Longrightarrow> length c \<le> right_child index \<Longrightarrow>
   \<not> cmp (c ! index) (c ! left_child index) \<Longrightarrow>
   downheap cmp c index = Inr c \<and> downheap_calls cmp c index = [index]"
  by (simp add: downheap_one downheap_calls_one)

text \<open>
  The two-children branch of \<^verbatim>\<open>downheap\<close> stops only when \<^verbatim>\<open>comp\<close> holds of each child
  and the node. A node that is not below either child, with one of them tying with it, is
  exchanged with a child and the descent goes on.
\<close>

lemma downheap_calls_nonempty: "downheap_calls cmp c index \<noteq> []"
  by (subst downheap_calls.simps) (simp split: sum.split)

lemma downheap_two_children_tie_goes_on:
  assumes "right_child index < length c"
    and "\<not> cmp (c ! right_child index) (c ! index) \<or> \<not> cmp (c ! left_child index) (c ! index)"
  shows "downheap_calls cmp c index \<noteq> [index]"
  using assms downheap_calls_nonempty [of cmp] by (auto simp: downheap_calls_two)

text \<open>
  Where no child ties with the node, the guard of the two-children branch of \<^verbatim>\<open>downheap\<close>
  (both children strictly lower) says the same as "neither child is strictly higher".
\<close>

lemma guard_without_ties:
  assumes "strict_weak_ordering cmp" and "cmp x l \<or> cmp l x" and "cmp x r \<or> cmp r x"
  shows "(cmp r x \<and> cmp l x) \<longleftrightarrow> (\<not> cmp x l \<and> \<not> cmp x r)"
  using assms swo_asym [OF assms(1)] by blast

section \<open>The claims of the specification\<close>

subsection \<open>Empty container\<close>

text \<open>
  Claim C1, as the code has it. \<^verbatim>\<open>top()\<close> and \<^verbatim>\<open>pop()\<close> test nothing: on a queue of
  size 0 each begins by reading \<^verbatim>\<open>c[0]\<close> outside the container, which is undefined
  behaviour (\<open>OutOfBounds\<close>), and neither signals \<open>EmptyContainer\<close>.
\<close>

theorem top_pop_empty_unchecked:
  "size_pq c = 0 \<Longrightarrow> top_pq c = Inl OutOfBounds \<and> pop cmp c = Inl OutOfBounds"
  by (simp add: size_pq_def top_pq_def at_def pop_empty)

theorem top_pop_empty_unchecked_witness:
  "size_pq ([] :: int list) = 0 \<and> top_pq ([] :: int list) = Inl OutOfBounds \<and>
   pop (<) ([] :: int list) = Inl OutOfBounds"
  using top_pop_empty_unchecked [of "[] :: int list" "(<)"] by (simp add: size_pq_def)

text \<open>
  The claim as the specification words it fails at the empty queue of integers: the result of
  either call is the read out of bounds, not the signal \<open>EmptyContainer\<close>.
\<close>

theorem top_pop_empty_counterexample:
  "size_pq ([] :: int list) = 0 \<and>
   top_pq ([] :: int list) \<noteq> Inl EmptyContainer \<and> top_pq ([] :: int list) = Inl OutOfBounds \<and>
   pop (<) ([] :: int list) \<noteq> Inl EmptyContainer \<and> pop (<) ([] :: int list) = Inl OutOfBounds"
  by (simp add: size_pq_def top_pq_def at_def pop_def)

subsection \<open>The heap property\<close>

text \<open>
  Claim C2. For a strict weak ordering, every sequence of \<^verbatim>\<open>push\<close> and \<^verbatim>\<open>pop\<close> calls
  that starts from the empty queue and pops only non-empty queues runs to the end, and in the
  state it reaches no element at an index \<open>i > 0\<close> has its parent, at index
  \<open>(i - 1) div 2\<close>, below it: \<^verbatim>\<open>comp(c[parent(i)], c[i])\<close> is false.
\<close>

theorem heap_property_reachable:
  assumes "strict_weak_ordering cmp" and "pops_nonempty 0 ops"
  shows "\<exists>c. run cmp [] ops = Inr c \<and>
    (\<forall>i. 0 < i \<and> i < length c \<longrightarrow> parent i = (i - 1) div 2 \<and> \<not> cmp (c ! parent i) (c ! i))"
proof -
  from run_heap [OF assms(1) heap_property_Nil, of ops] assms(2)
  obtain c where c: "run cmp [] ops = Inr c" "heap_property cmp c" by auto
  then show ?thesis unfolding heap_property_iff by (auto simp: parent_pos)
qed

theorem heap_property_reachable_witness:
  "strict_weak_ordering ((<) :: int \<Rightarrow> int \<Rightarrow> bool) \<and>
   pops_nonempty 0 [Push (3 :: int), Push 5, Pop, Push 1, Push 9] \<and>
   (\<exists>c. run (<) [] [Push (3 :: int), Push 5, Pop, Push 1, Push 9] = Inr c \<and>
     (\<forall>i. 0 < i \<and> i < length c \<longrightarrow> parent i = (i - 1) div 2 \<and> \<not> c ! parent i < c ! i))"
  using heap_property_reachable [OF swo_less, of "[Push (3 :: int), Push 5, Pop, Push 1, Push 9]"]
    swo_less [where 'a = int]
  by simp

subsection \<open>A node with both children\<close>

text \<open>
  Claim C3. At a node with both children the descent is to stop, with no exchange, when
  neither child is strictly higher than the node, and otherwise to exchange the node with the
  right child unless the left child is strictly higher than the right, and go on from there.
  The code does not stop when a child ties with the node. Four pushes of pairs compared on
  the first component give the queue \<open>[(7, 0), (5, 1), (3, 2), (5, 3)]\<close>; its \<^verbatim>\<open>pop()\<close>
  puts \<open>(5, 3)\<close> at the root over the children \<open>(5, 1)\<close> and \<open>(3, 2)\<close>, neither
  strictly higher, and \<^verbatim>\<open>downheap\<close> exchanges the root with its left child and calls
  itself at index 1, where the claim has one call and the sequence unchanged. The queue of
  integers pushed as 7, 5, 3, 5 under \<^verbatim>\<open>std::less\<close> is treated the same way.
\<close>

theorem downheap_tie_exchanges:
  "push_all (\<lambda>a b. fst a < fst b) [] [(7 :: int, 0 :: nat), (5, 1), (3, 2), (5, 3)] =
     Inr [(7, 0), (5, 1), (3, 2), (5, 3)] \<and>
   right_child 0 < length [(5 :: int, 3 :: nat), (5, 1), (3, 2)] \<and>
   \<not> fst ([(5 :: int, 3 :: nat), (5, 1), (3, 2)] ! 0)
       < fst ([(5 :: int, 3 :: nat), (5, 1), (3, 2)] ! left_child 0) \<and>
   \<not> fst ([(5 :: int, 3 :: nat), (5, 1), (3, 2)] ! 0)
       < fst ([(5 :: int, 3 :: nat), (5, 1), (3, 2)] ! right_child 0) \<and>
   downheap (\<lambda>a b. fst a < fst b) [(5 :: int, 3 :: nat), (5, 1), (3, 2)] 0 =
     Inr [(5, 1), (5, 3), (3, 2)] \<and>
   downheap (\<lambda>a b. fst a < fst b) [(5 :: int, 3 :: nat), (5, 1), (3, 2)] 0 \<noteq>
     Inr [(5, 3), (5, 1), (3, 2)] \<and>
   downheap_calls (\<lambda>a b. fst a < fst b) [(5 :: int, 3 :: nat), (5, 1), (3, 2)] 0 = [0, 1] \<and>
   pop (\<lambda>a b. fst a < fst b) [(7 :: int, 0 :: nat), (5, 1), (3, 2), (5, 3)] =
     Inr [(5, 1), (5, 3), (3, 2)] \<and>
   pop_downheap_calls (\<lambda>a b. fst a < fst b) [(7 :: int, 0 :: nat), (5, 1), (3, 2), (5, 3)] =
     [0, 1] \<and>
   push_all (<) [] [7, 5, 3, 5 :: int] = Inr [7, 5, 3, 5] \<and>
   pop_downheap_calls (<) [7, 5, 3, 5 :: int] = [0, 1]"
  by code_simp

subsection \<open>Sorted extraction\<close>

text \<open>
  Claim C4. Pushing any permutation of the integers \<open>1, \<dots>, n\<close> and then reading and
  removing the top \<open>n\<close> times yields \<open>n, \<dots>, 1\<close> under \<^verbatim>\<open>std::less\<close> and
  \<open>1, \<dots>, n\<close> under \<^verbatim>\<open>std::greater\<close>, and leaves the queue empty. Pushing
  \<open>0, \<dots>, 9\<close> in increasing order, as main.cpp does, drains as \<open>9, \<dots>, 0\<close> and as
  \<open>0, \<dots>, 9\<close>.
\<close>

theorem sorted_extraction:
  assumes "mset xs = mset [1..int n]"
  shows "(\<exists>c. push_all (<) [] xs = Inr c \<and> drain (<) c n = Inr (rev [1..int n], [])) \<and>
    (\<exists>c. push_all (\<lambda>a b. a > b) [] xs = Inr c \<and>
         drain (\<lambda>a b. a > b) c n = Inr ([1..int n], [])) \<and>
    (\<exists>c. push_all (<) [] [0, 1, 2, 3, 4, 5, 6, 7, 8, 9 :: int] = Inr c \<and>
         drain (<) c 10 = Inr ([9, 8, 7, 6, 5, 4, 3, 2, 1, 0], [])) \<and>
    (\<exists>c. push_all (\<lambda>a b. a > b) [] [0, 1, 2, 3, 4, 5, 6, 7, 8, 9 :: int] = Inr c \<and>
         drain (\<lambda>a b. a > b) c 10 = Inr ([0, 1, 2, 3, 4, 5, 6, 7, 8, 9], []))"
proof (intro conjI)
  let ?ten = "[0, 1, 2, 3, 4, 5, 6, 7, 8, 9 :: int]"
  have ten: "length ?ten = 10" "sort ?ten = ?ten" "rev ?ten = [9, 8, 7, 6, 5, 4, 3, 2, 1, 0]"
    by simp_all
  have len: "length xs = n"
    using arg_cong [OF assms, of size] by simp
  have srt: "sort xs = [1..int n]"
    using assms by (simp add: properties_for_sort)
  show "\<exists>c. push_all (<) [] xs = Inr c \<and> drain (<) c n = Inr (rev [1..int n], [])"
    using drain_less [of xs] by (simp add: len srt)
  show "\<exists>c. push_all (\<lambda>a b. a > b) [] xs = Inr c \<and>
         drain (\<lambda>a b. a > b) c n = Inr ([1..int n], [])"
    using drain_greater [of xs] by (simp add: len srt)
  show "\<exists>c. push_all (<) [] [0, 1, 2, 3, 4, 5, 6, 7, 8, 9 :: int] = Inr c \<and>
         drain (<) c 10 = Inr ([9, 8, 7, 6, 5, 4, 3, 2, 1, 0], [])"
    using drain_less [of ?ten] unfolding ten .
  show "\<exists>c. push_all (\<lambda>a b. a > b) [] [0, 1, 2, 3, 4, 5, 6, 7, 8, 9 :: int] = Inr c \<and>
         drain (\<lambda>a b. a > b) c 10 = Inr ([0, 1, 2, 3, 4, 5, 6, 7, 8, 9], [])"
    using drain_greater [of ?ten] unfolding ten .
qed

theorem sorted_extraction_witness:
  "mset [2, 3, 1 :: int] = mset [1..int 3] \<and>
   (\<exists>c. push_all (<) [] [2, 3, 1 :: int] = Inr c \<and> drain (<) c 3 = Inr ([3, 2, 1], [])) \<and>
   (\<exists>c. push_all (\<lambda>a b. a > b) [] [2, 3, 1 :: int] = Inr c \<and>
        drain (\<lambda>a b. a > b) c 3 = Inr ([1, 2, 3], []))"
proof -
  have u: "[1..3 :: int] = [1, 2, 3]" by (simp add: upto_rec1)
  have h: "mset [2, 3, 1 :: int] = mset [1..int 3]" by (simp add: u)
  show ?thesis using h sorted_extraction [OF h] by (simp add: u)
qed

subsection \<open>Size accounting\<close>

text \<open>
  Claim C5. A sequence of calls that starts from the empty queue and pops only non-empty
  queues runs to the end; it holds at most as many pops as pushes, \<^verbatim>\<open>size()\<close> then
  returns the number of pushes minus the number of pops, and \<^verbatim>\<open>empty()\<close> holds exactly
  when \<^verbatim>\<open>size()\<close> is 0.
\<close>

theorem size_accounting:
  "pops_nonempty 0 ops \<Longrightarrow>
   \<exists>c. run cmp [] ops = Inr c \<and> pops ops \<le> pushes ops \<and>
       size_pq c = pushes ops - pops ops \<and> (empty_pq c \<longleftrightarrow> size_pq c = 0)"
  using run_total [of "[]" ops cmp] by (auto simp: size_pq_def empty_pq_def)

theorem size_accounting_witness:
  "pops_nonempty 0 [Push (3 :: int), Push 5, Pop, Push 1, Pop] \<and>
   (\<exists>c. run (<) [] [Push (3 :: int), Push 5, Pop, Push 1, Pop] = Inr c \<and>
       pops [Push (3 :: int), Push 5, Pop, Push 1, Pop] \<le> pushes [Push (3 :: int), Push 5, Pop, Push 1, Pop] \<and>
       size_pq c = 1 \<and> (empty_pq c \<longleftrightarrow> size_pq c = 0))"
  using size_accounting [of "[Push (3 :: int), Push 5, Pop, Push 1, Pop]" "(<)"] by simp

subsection \<open>Popping the last element\<close>

text \<open>
  Claim C6, as the code has it. \<^verbatim>\<open>pop()\<close> on a queue of one element leaves the empty
  queue with no access out of bounds. It does call \<^verbatim>\<open>downheap(0)\<close> on the empty sequence:
  there is no test between \<^verbatim>\<open>c.pop_back()\<close> and that call, which returns at once because
  index 0 is a leaf of the empty sequence.
\<close>

theorem pop_last_element:
  "pop cmp [x] = Inr [] \<and> pop_downheap_calls cmp [x] = [0] \<and>
   is_leaf ([] :: 'a list) 0 \<and> downheap cmp [] 0 = Inr []"
  by (simp add: pop_eq pop_downheap_calls_eq downheap_leaf downheap_calls_leaf is_leaf_def)

text \<open>
  The claim as the specification words it has no call of the downward restoration on the
  empty sequence; the \<^verbatim>\<open>pop()\<close> of a one-element queue makes one.
\<close>

theorem pop_last_element_counterexample:
  "pop (<) [5 :: int] = Inr [] \<and> pop_downheap_calls (<) [5 :: int] \<noteq> []"
  by (simp add: pop_eq pop_downheap_calls_eq downheap_leaf downheap_calls_leaf)

subsection \<open>Termination\<close>

text \<open>
  Claim C7. \<^verbatim>\<open>upheap\<close> and \<^verbatim>\<open>downheap\<close> are total functions: the recursion of the
  first is on \<^verbatim>\<open>parent(index)\<close>, which is below \<open>index\<close> when \<open>index > 0\<close>, and the
  recursion of the second is on a child, which is above \<open>index\<close> and inside the container.
  Every operation returns a value, and not an access out of bounds, on every state that meets
  its precondition: any state for \<^verbatim>\<open>empty\<close>, \<^verbatim>\<open>size\<close> and \<^verbatim>\<open>push\<close>, a non-empty one
  for \<^verbatim>\<open>top\<close> and \<^verbatim>\<open>pop\<close>.
\<close>

theorem operations_terminate:
  "(\<exists>b. empty_pq c = b) \<and> (\<exists>n. size_pq c = n) \<and>
   (\<exists>c'. push cmp c v = Inr c') \<and> (\<exists>c'. push_move cmp c v = Inr c') \<and>
   (\<not> empty_pq c \<longrightarrow> (\<exists>x. top_pq c = Inr x) \<and> (\<exists>c'. pop cmp c = Inr c')) \<and>
   (index < length c \<longrightarrow> (\<exists>c'. upheap cmp c index = Inr c')) \<and>
   (\<exists>c'. downheap cmp c index = Inr c') \<and>
   (0 < index \<longrightarrow> parent index < index) \<and>
   index < left_child index \<and> index < right_child index"
proof (intro conjI impI)
  show "\<exists>c'. push cmp c v = Inr c'" using push_total [of cmp c v] by blast
  then show "\<exists>c'. push_move cmp c v = Inr c'"
    by (simp add: push_move_def push_def size_pq_def)
  show "\<exists>x. top_pq c = Inr x" if "\<not> empty_pq c"
    using that by (simp add: empty_pq_def top_pq_def at_in)
  show "\<exists>c'. pop cmp c = Inr c'" if "\<not> empty_pq c"
  proof -
    have "c \<noteq> []" using that by (simp add: empty_pq_def)
    from pop_total [OF this, of cmp] show ?thesis by blast
  qed
  show "\<exists>c'. upheap cmp c index = Inr c'" if "index < length c"
    using upheap_total [OF that, of cmp] by blast
  show "\<exists>c'. downheap cmp c index = Inr c'"
    using downheap_total [of cmp c index] by blast
  show "parent index < index" if "0 < index" using that by (rule parent_less)
qed (simp_all add: left_child_def right_child_def)

theorem operations_terminate_witness:
  "(\<exists>b. empty_pq [5, 3 :: int] = b) \<and> (\<exists>n. size_pq [5, 3 :: int] = n) \<and>
   (\<exists>c'. push (<) [5, 3 :: int] 9 = Inr c') \<and> (\<exists>c'. push_move (<) [5, 3 :: int] 9 = Inr c') \<and>
   \<not> empty_pq [5, 3 :: int] \<and>
   (\<exists>x. top_pq [5, 3 :: int] = Inr x) \<and> (\<exists>c'. pop (<) [5, 3 :: int] = Inr c') \<and>
   (1 :: nat) < length [5, 3 :: int] \<and>
   (\<exists>c'. upheap (<) [5, 3 :: int] 1 = Inr c') \<and>
   (\<exists>c'. downheap (<) [5, 3 :: int] 1 = Inr c') \<and>
   (0 :: nat) < 1 \<and> parent 1 < 1 \<and> 1 < left_child 1 \<and> 1 < right_child 1"
  using operations_terminate [of "[5, 3 :: int]" "(<)" 9 1] by (simp add: empty_pq_def)

subsection \<open>A single element\<close>

text \<open>
  Claim C8. On an empty queue, \<^verbatim>\<open>top()\<close> right after \<^verbatim>\<open>push(x)\<close> returns \<open>x\<close>, and
  \<^verbatim>\<open>pop()\<close> after that \<^verbatim>\<open>push(x)\<close> leaves the queue empty.
\<close>

theorem single_element_round_trip:
  "empty_pq c \<Longrightarrow>
   \<exists>c1. push cmp c x = Inr c1 \<and> top_pq c1 = Inr x \<and>
        (\<exists>c2. pop cmp c1 = Inr c2 \<and> empty_pq c2)"
  by (simp add: empty_pq_def push_eq upheap_zero top_pq_def at_in pop_eq downheap_leaf)

theorem single_element_round_trip_witness:
  "empty_pq ([] :: int list) \<and>
   (\<exists>c1. push (<) [] (7 :: int) = Inr c1 \<and> top_pq c1 = Inr 7 \<and>
        (\<exists>c2. pop (<) c1 = Inr c2 \<and> empty_pq c2))"
  using single_element_round_trip [of "[] :: int list" "(<)" 7] by (simp add: empty_pq_def)

subsection \<open>The stored elements\<close>

text \<open>
  Claim C9. \<^verbatim>\<open>push(v)\<close> adds one occurrence of \<open>v\<close> to the multiset of stored
  elements, \<^verbatim>\<open>pop()\<close> on a non-empty queue removes one occurrence of the former root, and
  \<^verbatim>\<open>upheap\<close> and \<^verbatim>\<open>downheap\<close> leave the multiset as it is.
\<close>

theorem multiset_preserved:
  "(\<exists>c'. push cmp c v = Inr c' \<and> mset c' = mset c + {#v#}) \<and>
   (\<not> empty_pq c \<longrightarrow>
      (\<exists>x c'. top_pq c = Inr x \<and> pop cmp c = Inr c' \<and> mset c' = mset c - {#x#})) \<and>
   (index < length c \<longrightarrow> (\<exists>c'. upheap cmp c index = Inr c' \<and> mset c' = mset c)) \<and>
   (\<exists>c'. downheap cmp c index = Inr c' \<and> mset c' = mset c)"
proof (intro conjI impI)
  show "\<exists>c'. push cmp c v = Inr c' \<and> mset c' = mset c + {#v#}"
    using push_total [of cmp c v] by auto
  show "\<exists>x c'. top_pq c = Inr x \<and> pop cmp c = Inr c' \<and> mset c' = mset c - {#x#}"
    if "\<not> empty_pq c"
  proof -
    have ne: "c \<noteq> []" using that by (simp add: empty_pq_def)
    then have "top_pq c = Inr (c ! 0)" by (simp add: top_pq_def at_in)
    then show ?thesis using pop_total [OF ne, of cmp] by auto
  qed
  show "\<exists>c'. upheap cmp c index = Inr c' \<and> mset c' = mset c" if "index < length c"
    using upheap_total [OF that, of cmp] by auto
  show "\<exists>c'. downheap cmp c index = Inr c' \<and> mset c' = mset c"
    using downheap_total [of cmp c index] by auto
qed

theorem multiset_preserved_witness:
  "(\<exists>c'. push (<) [5, 3 :: int] 9 = Inr c' \<and> mset c' = mset [5, 3] + {#9#}) \<and>
   \<not> empty_pq [5, 3 :: int] \<and>
   (\<exists>x c'. top_pq [5, 3 :: int] = Inr x \<and> pop (<) [5, 3] = Inr c' \<and>
      mset c' = mset [5, 3] - {#x#}) \<and>
   (1 :: nat) < length [5, 3 :: int] \<and>
   (\<exists>c'. upheap (<) [5, 3 :: int] 1 = Inr c' \<and> mset c' = mset [5, 3]) \<and>
   (\<exists>c'. downheap (<) [5, 3 :: int] 1 = Inr c' \<and> mset c' = mset [5, 3])"
  using multiset_preserved [of "(<)" "[5, 3 :: int]" 9 1] by (simp add: empty_pq_def)

subsection \<open>The two overloads of push\<close>

text \<open>
  Claim C10. The overload \<^verbatim>\<open>push(value_type&&)\<close> leaves the same sequence in the
  container as \<^verbatim>\<open>push(const value_type&)\<close>, for every state and every value.
\<close>

theorem push_copy_move_agree: "push_move cmp c v = push cmp c v"
  by (simp add: push_move_def push_def size_pq_def)

end
